theory Spec2Isabelle
  imports Main
begin

section \<open>Data model\<close>

text \<open>
  A token is the Python tuple \<^verbatim>\<open>(kind, value, line)\<close>: the kind is one of the
  string tags of the lexer, the value is the matched text, the line is a Python int.
  The characters of the text are code points below 256; on these the class
  \<^verbatim>\<open>\d\<close> of Python's \<^verbatim>\<open>re\<close> is exactly \<^verbatim>\<open>0-9\<close>.
\<close>

type_synonym token = "string \<times> string \<times> int"

definition kind_of :: "token \<Rightarrow> string" where
  "kind_of t = fst t"

definition value_of :: "token \<Rightarrow> string" where
  "value_of t = fst (snd t)"

definition line_of :: "token \<Rightarrow> int" where
  "line_of t = snd (snd t)"

text \<open>The only exception the lexer and the parser can raise: a list index out of range.\<close>

datatype py_error = IndexError

section \<open>Formatting\<close>

text \<open>\<^verbatim>\<open>str(n)\<close> for a Python int, as the f-strings of the source render a line number.\<close>

definition digit_char :: "nat \<Rightarrow> char" where
  "digit_char d = ''0123456789'' ! d"

fun str_nat :: "nat \<Rightarrow> string" where
  "str_nat n = (if n < 10 then [digit_char n] else str_nat (n div 10) @ [digit_char (n mod 10)])"

definition str_int :: "int \<Rightarrow> string" where
  "str_int i = (if i < 0 then CHR ''-'' # str_nat (nat (- i)) else str_nat (nat i))"

definition quoted :: "string \<Rightarrow> string" where
  "quoted v = [CHR 0x27] @ v @ [CHR 0x27]"

text \<open>\<^verbatim>\<open>'{expected_value}'\<close> in an f-string: \<^verbatim>\<open>None\<close> is rendered as the text None.\<close>

definition str_opt :: "string option \<Rightarrow> string" where
  "str_opt v = (case v of None \<Rightarrow> ''None'' | Some x \<Rightarrow> x)"

section \<open>Lexer\<close>

text \<open>The character classes of \<^verbatim>\<open>token_specification\<close>.\<close>

definition is_digit :: "char \<Rightarrow> bool" where
  "is_digit c = (c \<in> set ''0123456789'')"

definition is_lower :: "char \<Rightarrow> bool" where
  "is_lower c = (c \<in> set ''abcdefghijklmnopqrstuvwxyz'')"

definition is_upper :: "char \<Rightarrow> bool" where
  "is_upper c = (c \<in> set ''ABCDEFGHIJKLMNOPQRSTUVWXYZ'')"

definition is_word :: "char \<Rightarrow> bool" where
  "is_word c = (is_lower c \<or> is_upper c \<or> is_digit c \<or> c = CHR ''_'')"

definition is_blank :: "char \<Rightarrow> bool" where
  "is_blank c = (c = CHR '' '' \<or> c = CHR 0x09)"

definition newline :: char where
  "newline = CHR 0x0A"

text \<open>
  \<^verbatim>\<open>get_token(self.text, pos)\<close>: the compiled alternation matched at offset \<open>pos\<close>.
  The alternatives are tried in the order of \<^verbatim>\<open>token_specification\<close> and the first
  that matches wins; each of them is greedy. The result is \<^verbatim>\<open>(m.lastgroup, m.group())\<close>,
  or \<open>None\<close> when no alternative matches. The last alternative \<^verbatim>\<open>.\<close> matches any
  character but a newline.
\<close>

definition get_token :: "string \<Rightarrow> nat \<Rightarrow> (string \<times> string) option" where
  "get_token txt pos =
     (case drop pos txt of
        [] \<Rightarrow> None
      | c # cs \<Rightarrow>
          if is_digit c then Some (''NUMBER'', takeWhile is_digit (c # cs))
          else if is_lower c then Some (''ATOM'', c # takeWhile is_word cs)
          else if is_upper c \<or> c = CHR ''_'' then Some (''VARIABLE'', c # takeWhile is_word cs)
          else if take 2 (c # cs) = ''?-'' then Some (''SPECIAL'', ''?-'')
          else if take 2 (c # cs) = '':-'' then Some (''SPECIAL'', '':-'')
          else if c \<in> set ''.,(),'' then Some (''SPECIAL'', [c])
          else if is_blank c then Some (''SKIP'', takeWhile is_blank (c # cs))
          else if c = newline then Some (''NEWLINE'', [c])
          else if c \<noteq> newline then Some (''MISMATCH'', [c])
          else None)"

text \<open>
  The \<^verbatim>\<open>while pos < len(self.text)\<close> loop of \<^verbatim>\<open>Lexer.tokenize\<close>, on the loop
  variables \<open>pos\<close>, \<open>self.tokens\<close> and \<open>self.line\<close>; \<^verbatim>\<open>m.end()\<close> is
  \<open>pos\<close> plus the length of the match. A failed match leaves the loop (\<^verbatim>\<open>break\<close>).
\<close>

function tokenize_loop :: "string \<Rightarrow> nat \<Rightarrow> token list \<Rightarrow> int \<Rightarrow> token list \<times> int" where
  "tokenize_loop txt pos toks ln =
     (if pos < length txt then
        (case get_token txt pos of
           Some (kind, val) \<Rightarrow>
             (if kind = ''NEWLINE'' then tokenize_loop txt (pos + length val) toks (ln + 1)
              else if kind = ''SKIP'' then tokenize_loop txt (pos + length val) toks ln
              else if kind = ''MISMATCH'' then
                tokenize_loop txt (pos + length val) (toks @ [(''ERROR'', val, ln)]) ln
              else tokenize_loop txt (pos + length val) (toks @ [(kind, val, ln)]) ln)
         | None \<Rightarrow> (toks, ln))
      else (toks, ln))"
  by pat_completeness auto

lemma get_token_nonempty: "get_token txt p = Some (k, v) \<Longrightarrow> v \<noteq> []"
  unfolding get_token_def by (auto split: list.splits if_splits)

lemma get_token_decreases:
  "get_token txt p = Some (k, v) \<Longrightarrow> p < length txt \<Longrightarrow>
   length txt - (p + length v) < length txt - p"
  using get_token_nonempty [of _ p k v] by (cases v) auto

termination tokenize_loop
  by (relation "measure (\<lambda>(txt, pos, toks, ln). length txt - pos)")
     (auto intro: get_token_decreases)

text \<open>
  \<^verbatim>\<open>Lexer(text).get_tokens()\<close>: the constructor starts with no token and line 1, runs
  the loop and appends the EOF token.
\<close>

definition tokenize :: "string \<Rightarrow> token list" where
  "tokenize txt = (case tokenize_loop txt 0 [] 1 of (toks, ln) \<Rightarrow> toks @ [(''EOF'', [], ln)])"

section \<open>Parser\<close>

record parser =
  tokens :: "token list"
  pos :: nat
  errors :: "string list"

definition Parser :: "token list \<Rightarrow> parser" where
  "Parser ts = \<lparr>tokens = ts, pos = 0, errors = []\<rparr>"

text \<open>\<^verbatim>\<open>self.tokens[self.pos]\<close> raises IndexError out of range.\<close>

definition current_token :: "parser \<Rightarrow> py_error + token" where
  "current_token s =
     (if pos s < length (tokens s) then Inr (tokens s ! pos s) else Inl IndexError)"

definition advance :: "parser \<Rightarrow> parser" where
  "advance s =
     (if int (pos s) < int (length (tokens s)) - 1 then s\<lparr>pos := pos s + 1\<rparr> else s)"

text \<open>The local \<^verbatim>\<open>error_msg\<close> of \<^verbatim>\<open>Parser.error\<close>.\<close>

definition error_msg :: "string \<Rightarrow> int \<Rightarrow> string" where
  "error_msg message ln = ''Syntax Error at line '' @ str_int ln @ '': '' @ message"

definition error :: "string \<Rightarrow> int \<Rightarrow> parser \<Rightarrow> parser" where
  "error message ln s = s\<lparr>errors := errors s @ [error_msg message ln]\<rparr>"

definition match :: "string \<Rightarrow> string option \<Rightarrow> parser \<Rightarrow> py_error + bool \<times> parser" where
  "match expected_type expected_value s =
     (case current_token s of
        Inl e \<Rightarrow> Inl e
      | Inr token \<Rightarrow>
          if kind_of token = expected_type \<and>
             (expected_value = None \<or> Some (value_of token) = expected_value)
          then Inr (True, advance s)
          else Inr (False,
            error (''Expected '' @ expected_type @ '' '' @ quoted (str_opt expected_value) @
                   '' but found '' @ kind_of token @ '' '' @ quoted (value_of token))
                  (line_of token) s))"

text \<open>
  A procedure of the parser either raises, returns the parser it has updated, or does not
  return at all: \<open>None\<close> is a run that never returns.
\<close>

type_synonym 'a run = "(py_error + 'a) option"

definition ret :: "'a \<Rightarrow> 'a run" where
  "ret x = Some (Inr x)"

definition seq :: "'a run \<Rightarrow> ('a \<Rightarrow> 'b run) \<Rightarrow> 'b run" where
  "seq m k = Option.bind m (\<lambda>r. case r of Inl e \<Rightarrow> Some (Inl e) | Inr x \<Rightarrow> k x)"

text \<open>A statement that cannot loop, run for its effect: a result it returns is dropped.\<close>

definition step :: "py_error + 'a \<Rightarrow> 'a run" where
  "step m = Some m"

definition parse_atom :: "parser \<Rightarrow> parser run" where
  "parse_atom s =
     seq (step (current_token s)) (\<lambda>token.
       if kind_of token = ''ATOM'' then
         seq (step (match ''ATOM'' None s)) (\<lambda>(ok, s1). ret s1)
       else ret (advance (error ''Expected an atom'' (line_of token) s)))"


lemma seq_mono [partial_function_mono]:
  assumes "mono_option B" and "\<And>y. mono_option (\<lambda>f. C y f)"
  shows "mono_option (\<lambda>f. seq (B f) (\<lambda>y. C y f))"
  unfolding seq_def
proof (rule bind_mono [OF assms(1)])
  fix r
  show "mono_option (\<lambda>f. case r of Inl e \<Rightarrow> Some (Inl e) | Inr x \<Rightarrow> C x f)"
    by (cases r) (simp_all add: assms(2) option.const_mono)
qed

text \<open>
  \<^verbatim>\<open>parse_term\<close> and \<^verbatim>\<open>parse_term_list\<close> call each other; the procedure to
  run is the first argument. \<open>TermListLoop\<close> is the \<^verbatim>\<open>while\<close> loop of
  \<^verbatim>\<open>parse_term_list\<close>.
\<close>

datatype term_proc = Term | TermList | TermListLoop

partial_function (option) parse_terms :: "term_proc \<Rightarrow> parser \<Rightarrow> parser run" where
  "parse_terms p s =
     (case p of
        Term \<Rightarrow>
          seq (step (current_token s)) (\<lambda>token.
            if kind_of token = ''ATOM'' then
              seq (parse_atom s) (\<lambda>s1.
              seq (step (current_token s1)) (\<lambda>t1.
                if value_of t1 = ''('' then
                  seq (step (match ''SPECIAL'' (Some ''('') s1)) (\<lambda>(ok, s2).
                  seq (parse_terms TermList s2) (\<lambda>s3.
                  seq (step (match ''SPECIAL'' (Some '')'') s3)) (\<lambda>(ok, s4). ret s4)))
                else ret s1))
            else if kind_of token = ''VARIABLE'' then
              seq (step (match ''VARIABLE'' None s)) (\<lambda>(ok, s1). ret s1)
            else if kind_of token = ''NUMBER'' then
              seq (step (match ''NUMBER'' None s)) (\<lambda>(ok, s1). ret s1)
            else
              ret (advance (error ''Invalid term: expected atom, variable, numeral, or structure''
                                  (line_of token) s)))
      | TermList \<Rightarrow>
          seq (parse_terms Term s) (\<lambda>s1. parse_terms TermListLoop s1)
      | TermListLoop \<Rightarrow>
          seq (step (current_token s)) (\<lambda>token.
            if value_of token = '','' then
              seq (step (match ''SPECIAL'' (Some '','') s)) (\<lambda>(ok, s1).
              seq (parse_terms Term s1) (\<lambda>s2. parse_terms TermListLoop s2))
            else ret s))"

definition parse_term :: "parser \<Rightarrow> parser run" where
  "parse_term s = parse_terms Term s"

definition parse_term_list :: "parser \<Rightarrow> parser run" where
  "parse_term_list s = parse_terms TermList s"

definition parse_predicate :: "parser \<Rightarrow> parser run" where
  "parse_predicate s =
     seq (step (current_token s)) (\<lambda>token.
       if kind_of token = ''ATOM'' then
         seq (parse_atom s) (\<lambda>s1.
         seq (step (current_token s1)) (\<lambda>t1.
           if value_of t1 = ''('' then
             seq (step (match ''SPECIAL'' (Some ''('') s1)) (\<lambda>(ok, s2).
             seq (parse_term_list s2) (\<lambda>s3.
             seq (step (match ''SPECIAL'' (Some '')'') s3)) (\<lambda>(ok, s4). ret s4)))
           else ret s1))
       else ret (advance (error ''Predicate must start with an atom'' (line_of token) s)))"

text \<open>The \<^verbatim>\<open>while\<close> loop of \<^verbatim>\<open>parse_predicate_list\<close>.\<close>

partial_function (option) predicate_list_loop :: "parser \<Rightarrow> parser run" where
  "predicate_list_loop s =
     seq (step (current_token s)) (\<lambda>token.
       if value_of token = '','' then
         seq (step (match ''SPECIAL'' (Some '','') s)) (\<lambda>(ok, s1).
         seq (parse_predicate s1) (\<lambda>s2. predicate_list_loop s2))
       else ret s)"

definition parse_predicate_list :: "parser \<Rightarrow> parser run" where
  "parse_predicate_list s = seq (parse_predicate s) (\<lambda>s1. predicate_list_loop s1)"

definition parse_clause :: "parser \<Rightarrow> parser run" where
  "parse_clause s =
     seq (parse_predicate s) (\<lambda>s1.
     seq (step (current_token s1)) (\<lambda>token.
       if value_of token = ''.'' then
         seq (step (match ''SPECIAL'' (Some ''.'') s1)) (\<lambda>(ok, s2). ret s2)
       else if value_of token = '':-'' then
         seq (step (match ''SPECIAL'' (Some '':-'') s1)) (\<lambda>(ok, s2).
         seq (parse_predicate_list s2) (\<lambda>s3.
         seq (step (match ''SPECIAL'' (Some ''.'') s3)) (\<lambda>(ok, s4). ret s4)))
       else
         ret (advance (error (''Clause must end with '' @ quoted ''.'' @ '' or use '' @
                              quoted '':-'' @ '' followed by a predicate list and a '' @
                              quoted ''.'')
                             (line_of token) s1))))"

text \<open>\<^verbatim>\<open>parse_clause_list\<close> is its \<^verbatim>\<open>while\<close> loop.\<close>

partial_function (option) parse_clause_list :: "parser \<Rightarrow> parser run" where
  "parse_clause_list s =
     seq (step (current_token s)) (\<lambda>token.
       if kind_of token \<noteq> ''EOF'' \<and> value_of token \<noteq> ''?-'' then
         seq (parse_clause s) (\<lambda>s1. parse_clause_list s1)
       else ret s)"

definition parse_query :: "parser \<Rightarrow> parser run" where
  "parse_query s =
     seq (step (current_token s)) (\<lambda>token.
       if value_of token = ''?-'' then
         seq (step (match ''SPECIAL'' (Some ''?-'') s)) (\<lambda>(ok, s1).
         seq (parse_predicate_list s1) (\<lambda>s2.
         seq (step (match ''SPECIAL'' (Some ''.'') s2)) (\<lambda>(ok, s3). ret s3)))
       else ret (error (''Query should start with '' @ quoted ''?-'') (line_of token) s))"

definition parse_program :: "parser \<Rightarrow> parser run" where
  "parse_program s =
     seq (step (current_token s)) (\<lambda>token.
       if value_of token = ''?-'' then parse_query s
       else
         seq (parse_clause_list s) (\<lambda>s1.
         seq (step (current_token s1)) (\<lambda>t1.
           if value_of t1 = ''?-'' then parse_query s1 else ret s1)))"

section \<open>File processing\<close>

text \<open>
  The lines of \<^verbatim>\<open>process_file\<close> after the file is read: lexical analysis, parsing, and
  the parser's error list.
\<close>

definition check_syntax :: "string \<Rightarrow> string list run" where
  "check_syntax content =
     (let tokens = tokenize content; parser = Parser tokens
      in seq (parse_program parser) (\<lambda>s. ret (errors s)))"

text \<open>
  \<^verbatim>\<open>process_file\<close>: the file system is a map from file names to contents; a name it
  does not hold cannot be read (\<^verbatim>\<open>IOError\<close>).
\<close>

definition process_file :: "(string \<rightharpoonup> string) \<Rightarrow> string \<Rightarrow> string list run" where
  "process_file fs filename =
     (case fs filename of
        None \<Rightarrow> ret [''File '' @ filename @ '' not found or could not be read.'']
      | Some content \<Rightarrow> check_syntax content)"

declare parse_terms.simps [code]
declare predicate_list_loop.simps [code]
declare parse_clause_list.simps [code]

section \<open>Assertions on parser states\<close>

text \<open>The cursor reads inside the token list.\<close>

definition in_bounds :: "parser \<Rightarrow> bool" where
  "in_bounds s \<longleftrightarrow> pos s < length (tokens s)"

text \<open>The message of the failure branch of \<^verbatim>\<open>parse_query\<close>.\<close>

definition query_message :: string where
  "query_message = ''Query should start with '' @ quoted ''?-''"

text \<open>
  What every procedure of the parser does to the state: the tokens stay, the cursor does
  not go back and stays inside the list, and the error list grows at its end, by messages
  other than the one of the failure branch of \<^verbatim>\<open>parse_query\<close>.
\<close>

definition extends :: "parser \<Rightarrow> parser \<Rightarrow> bool" where
  "extends s s' \<longleftrightarrow>
     tokens s' = tokens s \<and> pos s \<le> pos s' \<and> in_bounds s' \<and>
     (\<exists>new. errors s' = errors s @ new \<and>
        (\<forall>e \<in> set new. \<forall>ln. e \<noteq> error_msg query_message ln))"

text \<open>The cursor has moved on, unless it was on the last token.\<close>

definition advances :: "parser \<Rightarrow> parser \<Rightarrow> bool" where
  "advances s s' \<longleftrightarrow> (pos s + 1 < length (tokens s) \<longrightarrow> pos s < pos s')"

text \<open>
  A run started in \<open>s\<close> with the cursor in bounds, if it returns, returns normally, in a
  state that extends \<open>s\<close> (and, when \<open>strict\<close>, with the cursor moved on).
\<close>

definition run_ok :: "bool \<Rightarrow> parser \<Rightarrow> parser run \<Rightarrow> bool" where
  "run_ok strict s m \<longleftrightarrow>
     (in_bounds s \<longrightarrow>
       (\<forall>r. m = Some r \<longrightarrow> (\<exists>s'. r = Inr s' \<and> extends s s' \<and> (strict \<longrightarrow> advances s s'))))"

text \<open>The run returns, normally or by raising.\<close>

definition returns :: "'a run \<Rightarrow> bool" where
  "returns m \<longleftrightarrow> (\<exists>r. m = Some r)"

text \<open>The token list ends with the token the lexer appends: kind EOF, empty text.\<close>

definition ends_in_EOF :: "token list \<Rightarrow> bool" where
  "ends_in_EOF ts \<longleftrightarrow> ts \<noteq> [] \<and> kind_of (last ts) = ''EOF'' \<and> value_of (last ts) = []"

text \<open>The states in which the parser runs: the cursor in bounds, the list ending in EOF.\<close>

definition ready :: "parser \<Rightarrow> bool" where
  "ready s \<longleftrightarrow> in_bounds s \<and> ends_in_EOF (tokens s)"

text \<open>The order of the calls among the procedures for terms that do not move the cursor.\<close>

definition rank :: "term_proc \<Rightarrow> nat" where
  "rank p = (case p of Term \<Rightarrow> 0 | TermListLoop \<Rightarrow> 1 | TermList \<Rightarrow> 2)"

text \<open>
  The match at offset \<open>p\<close> is one of the first four groups: a NUMBER, ATOM, VARIABLE or
  SPECIAL match begins there.
\<close>

definition begins_token :: "string \<Rightarrow> nat \<Rightarrow> bool" where
  "begins_token txt p =
     (case get_token txt p of
        None \<Rightarrow> False
      | Some (k, v) \<Rightarrow> k = ''NUMBER'' \<or> k = ''ATOM'' \<or> k = ''VARIABLE'' \<or> k = ''SPECIAL'')"

text \<open>The characters that occur in no pattern of the lexer but the last one.\<close>

definition stray :: "char \<Rightarrow> bool" where
  "stray c \<longleftrightarrow> \<not> is_word c \<and> \<not> is_blank c \<and> c \<noteq> newline \<and> c \<notin> set ''.,()?:-''"

section \<open>Sequencing\<close>

lemma seq_simps [simp]:
  "seq None k = None"
  "seq (Some (Inl e)) k = Some (Inl e)"
  "seq (Some (Inr x)) k = k x"
  "seq (step (Inl e)) k = Some (Inl e)"
  "seq (step (Inr x)) k = k x"
  "seq (ret x) k = k x"
  by (simp_all add: seq_def step_def ret_def)

lemma seq_eq_Some:
  "seq m k = Some r \<longleftrightarrow>
     (\<exists>e. m = Some (Inl e) \<and> r = Inl e) \<or> (\<exists>x. m = Some (Inr x) \<and> k x = Some r)"
  by (cases m) (auto simp: seq_def split: sum.splits)

section \<open>Error messages\<close>

declare str_nat.simps [simp del]

lemma digit_char_in: "d < 10 \<Longrightarrow> digit_char d \<in> set ''0123456789''"
  unfolding digit_char_def by (rule nth_mem) simp

lemma str_nat_digits: "set (str_nat n) \<subseteq> set ''0123456789''"
proof (induction n rule: str_nat.induct)
  case (1 n)
  show ?case
  proof (cases "n < 10")
    case True
    then show ?thesis
      using digit_char_in [of n] by (subst str_nat.simps) simp
  next
    case False
    have "n mod 10 < 10" by simp
    then have "digit_char (n mod 10) \<in> set ''0123456789''"
      by (rule digit_char_in)
    with False "1.IH" show ?thesis
      by (subst str_nat.simps) simp
  qed
qed

lemma str_int_no_colon: "CHR '':'' \<notin> set (str_int i)"
  using str_nat_digits [of "nat i"] str_nat_digits [of "nat (- i)"]
  by (auto simp: str_int_def)

lemma split_at_colon:
  "CHR '':'' \<notin> set a \<Longrightarrow> CHR '':'' \<notin> set b \<Longrightarrow>
   a @ CHR '':'' # r = b @ CHR '':'' # r' \<Longrightarrow> r = r'"
proof (induction a arbitrary: b)
  case Nil
  then show ?case by (cases b) auto
next
  case (Cons x a)
  then show ?case by (cases b) auto
qed

lemma error_msg_inject: "error_msg m l = error_msg m' l' \<Longrightarrow> m = m'"
  using split_at_colon [OF str_int_no_colon [of l] str_int_no_colon [of l'], of "CHR '' '' # m" "CHR '' '' # m'"]
  by (simp add: error_msg_def)

lemma not_query_message: "hd m \<noteq> CHR ''Q'' \<Longrightarrow> m \<noteq> query_message"
  by (auto simp: query_message_def)

section \<open>The cursor and the error list under the basic operations\<close>

lemma extends_refl: "in_bounds s \<Longrightarrow> extends s s"
  by (simp add: extends_def)

lemma extends_trans: "extends s s1 \<Longrightarrow> extends s1 s2 \<Longrightarrow> extends s s2"
  unfolding extends_def by (elim conjE exE) (rule conjI, simp, rule conjI, simp, rule conjI, simp, auto)

lemma extends_in_bounds: "extends s s' \<Longrightarrow> in_bounds s'"
  by (simp add: extends_def)

lemma current_token_in_bounds: "in_bounds s \<Longrightarrow> current_token s = Inr (tokens s ! pos s)"
  by (simp add: current_token_def in_bounds_def)

lemma extends_advance: "in_bounds s \<Longrightarrow> extends s (advance s)"
  by (auto simp: extends_def advance_def in_bounds_def)

lemma advances_advance: "advances s (advance s)"
  by (auto simp: advances_def advance_def)

lemma extends_error: "in_bounds s \<Longrightarrow> m \<noteq> query_message \<Longrightarrow> extends s (error m l s)"
  by (auto simp: extends_def error_def in_bounds_def dest: error_msg_inject)

lemma extends_advance_error:
  "in_bounds s \<Longrightarrow> m \<noteq> query_message \<Longrightarrow> extends s (advance (error m l s))"
  by (rule extends_trans [OF extends_error extends_advance])
     (auto dest: extends_in_bounds [OF extends_error])

lemma advances_advance_error: "advances s (advance (error m l s))"
  by (auto simp: advances_def advance_def error_def)

lemma match_cases:
  assumes "in_bounds s"
  shows "match k v s = Inr (True, advance s) \<or>
         (\<exists>m. match k v s = Inr (False, error (''Expected '' @ m) (line_of (tokens s ! pos s)) s))"
proof (cases "kind_of (tokens s ! pos s) = k \<and> (v = None \<or> Some (value_of (tokens s ! pos s)) = v)")
  case True
  with assms show ?thesis
    by (simp add: match_def current_token_in_bounds)
next
  case False
  with assms have "match k v s =
      Inr (False, error (''Expected '' @ (k @ '' '' @ quoted (str_opt v) @ '' but found '' @
                           kind_of (tokens s ! pos s) @ '' '' @ quoted (value_of (tokens s ! pos s))))
                        (line_of (tokens s ! pos s)) s)"
    by (simp add: match_def current_token_in_bounds)
  then show ?thesis by blast
qed

lemma match_extends:
  assumes "in_bounds s"
  shows "\<exists>ok s'. match k v s = Inr (ok, s') \<and> extends s s'"
  using match_cases [OF assms, of k v] extends_advance [OF assms]
    extends_error [OF assms not_query_message]
  by fastforce

lemma match_success:
  "in_bounds s \<Longrightarrow> kind_of (tokens s ! pos s) = k \<Longrightarrow> match k None s = Inr (True, advance s)"
  by (simp add: match_def current_token_in_bounds)

section \<open>Rules for runs\<close>

lemma run_ok_ret: "extends s x \<Longrightarrow> (strict \<Longrightarrow> advances s x) \<Longrightarrow> run_ok strict s (ret x)"
  by (auto simp: run_ok_def ret_def)

lemma run_ok_weaken: "run_ok strict s m \<Longrightarrow> run_ok False s m"
  by (auto simp: run_ok_def)

lemma run_ok_seq:
  assumes "run_ok strict s m" and "\<And>x. extends s x \<Longrightarrow> run_ok False x (k x)"
  shows "run_ok strict s (seq m k)"
  unfolding run_ok_def
proof (intro impI allI)
  fix r
  assume b: "in_bounds s" and r: "seq m k = Some r"
  from r consider e where "m = Some (Inl e)" | x where "m = Some (Inr x)" "k x = Some r"
    unfolding seq_eq_Some by blast
  then show "\<exists>s'. r = Inr s' \<and> extends s s' \<and> (strict \<longrightarrow> advances s s')"
  proof cases
    case 1
    with assms(1) b show ?thesis by (simp add: run_ok_def)
  next
    case 2
    with assms(1) b have x: "extends s x" "strict \<longrightarrow> advances s x"
      by (simp_all add: run_ok_def)
    from assms(2) [OF x(1)] 2(2) extends_in_bounds [OF x(1)]
    obtain s' where s': "r = Inr s'" "extends x s'"
      by (auto simp: run_ok_def)
    from x(1) s'(2) have "extends s s'"
      by (rule extends_trans)
    moreover from x s'(2) have "strict \<longrightarrow> advances s s'"
      by (auto simp: advances_def extends_def)
    ultimately show ?thesis using s'(1) by simp
  qed
qed

lemma run_ok_current:
  assumes "in_bounds s \<Longrightarrow> run_ok strict s (k (tokens s ! pos s))"
  shows "run_ok strict s (seq (step (current_token s)) k)"
  using assms by (auto simp: run_ok_def current_token_in_bounds)

lemma run_ok_match:
  assumes "\<And>ok x. extends s x \<Longrightarrow> run_ok False x (k ok x)"
  shows "run_ok False s (seq (step (match a v s)) (case_prod k))"
  unfolding run_ok_def
proof (intro impI allI)
  fix r
  assume b: "in_bounds s" and r: "seq (step (match a v s)) (case_prod k) = Some r"
  from match_extends [OF b, of a v] obtain ok x where m: "match a v s = Inr (ok, x)" "extends s x"
    by blast
  from r m have "k ok x = Some r" by simp
  with assms [OF m(2)] extends_in_bounds [OF m(2)]
  obtain s' where s': "r = Inr s'" "extends x s'"
    by (auto simp: run_ok_def)
  with m(2) have "extends s s'" by (auto intro: extends_trans)
  with s' show "\<exists>s'. r = Inr s' \<and> extends s s' \<and> (False \<longrightarrow> advances s s')" by simp
qed

lemma run_ok_self: "extends s x \<Longrightarrow> run_ok False x (ret x)"
  by (rule run_ok_ret) (auto intro: extends_refl extends_in_bounds)

lemma run_ok_advance: "run_ok strict s (ret (advance s))"
  unfolding run_ok_def by (auto simp: ret_def extends_advance advances_advance)

lemma run_ok_advance_error:
  "m \<noteq> query_message \<Longrightarrow> run_ok strict s (ret (advance (error m l s)))"
  unfolding run_ok_def by (auto simp: ret_def extends_advance_error advances_advance_error)

lemma run_ok_match_kind:
  "in_bounds s \<Longrightarrow> kind_of (tokens s ! pos s) = k \<Longrightarrow>
   run_ok strict s (seq (step (match k None s)) (\<lambda>(ok, s1). ret s1))"
  by (simp add: match_success run_ok_advance)

section \<open>What the procedures do to the cursor and the error list\<close>

lemma parse_atom_ok: "run_ok strict s (parse_atom s)"
  unfolding parse_atom_def
  by (rule run_ok_current)
     (simp add: run_ok_match_kind run_ok_advance_error not_query_message)

lemma parse_terms_ok: "run_ok (p \<noteq> TermListLoop) s (parse_terms p s)"
proof -
  have "in_bounds s \<longrightarrow>
          (\<exists>s'. r = Inr s' \<and> extends s s' \<and> (p \<noteq> TermListLoop \<longrightarrow> advances s s'))"
    if "parse_terms p s = Some r" for r
  proof (rule parse_terms.raw_induct [where P = "\<lambda>p s r. in_bounds s \<longrightarrow>
          (\<exists>s'. r = Inr s' \<and> extends s s' \<and> (p \<noteq> TermListLoop \<longrightarrow> advances s s'))", OF _ that],
      goal_cases)
    case (1 f p s r)
    from 1(1) have ih: "run_ok (q \<noteq> TermListLoop) x (f q x)" for q x
      by (simp add: run_ok_def)
    have ih': "run_ok False x (f q x)" for q x
      by (rule run_ok_weaken [OF ih])
    have "run_ok (p \<noteq> TermListLoop) s
       (case p of
        Term \<Rightarrow>
          seq (step (current_token s)) (\<lambda>token.
            if kind_of token = ''ATOM'' then
              seq (parse_atom s) (\<lambda>s1.
              seq (step (current_token s1)) (\<lambda>t1.
                if value_of t1 = ''('' then
                  seq (step (match ''SPECIAL'' (Some ''('') s1)) (\<lambda>(ok, s2).
                  seq (f TermList s2) (\<lambda>s3.
                  seq (step (match ''SPECIAL'' (Some '')'') s3)) (\<lambda>(ok, s4). ret s4)))
                else ret s1))
            else if kind_of token = ''VARIABLE'' then
              seq (step (match ''VARIABLE'' None s)) (\<lambda>(ok, s1). ret s1)
            else if kind_of token = ''NUMBER'' then
              seq (step (match ''NUMBER'' None s)) (\<lambda>(ok, s1). ret s1)
            else
              ret (advance (error ''Invalid term: expected atom, variable, numeral, or structure''
                                  (line_of token) s)))
      | TermList \<Rightarrow>
          seq (f Term s) (\<lambda>s1. f TermListLoop s1)
      | TermListLoop \<Rightarrow>
          seq (step (current_token s)) (\<lambda>token.
            if value_of token = '','' then
              seq (step (match ''SPECIAL'' (Some '','') s)) (\<lambda>(ok, s1).
              seq (f Term s1) (\<lambda>s2. f TermListLoop s2))
            else ret s))"
    proof (cases p)
      case Term
      show ?thesis
        unfolding Term term_proc.case
        by (rule run_ok_current)
           (auto intro!: run_ok_seq parse_atom_ok run_ok_current run_ok_match ih' run_ok_self
                   run_ok_match_kind run_ok_advance_error not_query_message)
    next
      case TermList
      show ?thesis
        unfolding TermList term_proc.case
        using ih [of Term s] by (auto intro!: run_ok_seq ih')
    next
      case TermListLoop
      show ?thesis
        unfolding TermListLoop term_proc.case
        by (rule run_ok_current)
           (auto intro!: run_ok_seq run_ok_match ih' run_ok_self extends_refl)
    qed
    with 1(2) show ?case
      by (simp add: run_ok_def)
  qed
  then show ?thesis
    by (simp add: run_ok_def)
qed

lemma parse_term_list_ok: "run_ok strict s (parse_term_list s)"
  using parse_terms_ok [of TermList s] by (auto simp add: parse_term_list_def run_ok_def)

lemma parse_predicate_ok: "run_ok strict s (parse_predicate s)"
  unfolding parse_predicate_def
  by (rule run_ok_current)
     (auto intro!: run_ok_seq parse_atom_ok run_ok_current run_ok_match parse_term_list_ok
             run_ok_self run_ok_advance_error not_query_message)

lemma predicate_list_loop_ok: "run_ok False s (predicate_list_loop s)"
proof -
  have "in_bounds s \<longrightarrow> (\<exists>s'. r = Inr s' \<and> extends s s')"
    if "predicate_list_loop s = Some r" for r
  proof (rule predicate_list_loop.raw_induct [where P = "\<lambda>s r. in_bounds s \<longrightarrow>
          (\<exists>s'. r = Inr s' \<and> extends s s')", OF _ that], goal_cases)
    case (1 f s r)
    from 1(1) have ih: "run_ok False x (f x)" for x
      by (simp add: run_ok_def)
    have "run_ok False s
       (seq (step (current_token s)) (\<lambda>token.
          if value_of token = '','' then
            seq (step (match ''SPECIAL'' (Some '','') s)) (\<lambda>(ok, s1).
            seq (parse_predicate s1) (\<lambda>s2. f s2))
          else ret s))"
      by (rule run_ok_current)
         (auto intro!: run_ok_seq run_ok_match parse_predicate_ok ih run_ok_self extends_refl)
    with 1(2) show ?case
      by (simp add: run_ok_def)
  qed
  then show ?thesis
    by (simp add: run_ok_def)
qed

lemma parse_predicate_list_ok: "run_ok strict s (parse_predicate_list s)"
  unfolding parse_predicate_list_def
  by (intro run_ok_seq parse_predicate_ok predicate_list_loop_ok)

lemma parse_clause_ok: "run_ok strict s (parse_clause s)"
  unfolding parse_clause_def
  by (rule run_ok_seq [OF parse_predicate_ok])
     (auto intro!: run_ok_seq run_ok_current run_ok_match parse_predicate_list_ok
             run_ok_self run_ok_advance_error not_query_message
           dest: extends_in_bounds)

lemma parse_clause_list_ok: "run_ok False s (parse_clause_list s)"
proof -
  have "in_bounds s \<longrightarrow> (\<exists>s'. r = Inr s' \<and> extends s s')"
    if "parse_clause_list s = Some r" for r
  proof (rule parse_clause_list.raw_induct [where P = "\<lambda>s r. in_bounds s \<longrightarrow>
          (\<exists>s'. r = Inr s' \<and> extends s s')", OF _ that], goal_cases)
    case (1 f s r)
    from 1(1) have ih: "run_ok False x (f x)" for x
      by (simp add: run_ok_def)
    have "run_ok False s
       (seq (step (current_token s)) (\<lambda>token.
          if kind_of token \<noteq> ''EOF'' \<and> value_of token \<noteq> ''?-'' then
            seq (parse_clause s) (\<lambda>s1. f s1)
          else ret s))"
      by (rule run_ok_current)
         (auto intro!: run_ok_seq parse_clause_ok ih run_ok_self extends_refl)
    with 1(2) show ?case
      by (simp add: run_ok_def)
  qed
  then show ?thesis
    by (simp add: run_ok_def)
qed

text \<open>\<^verbatim>\<open>parse_query\<close> on a token \<^verbatim>\<open>?-\<close>, as \<^verbatim>\<open>parse_program\<close> calls it.\<close>

lemma parse_query_ok:
  "value_of (tokens s ! pos s) = ''?-'' \<Longrightarrow> run_ok False s (parse_query s)"
  unfolding parse_query_def
  by (rule run_ok_current)
     (auto intro!: run_ok_seq run_ok_match parse_predicate_list_ok run_ok_self)

lemma parse_program_ok: "run_ok False s (parse_program s)"
  unfolding parse_program_def
  by (rule run_ok_current)
     (auto intro!: run_ok_seq parse_clause_list_ok run_ok_current parse_query_ok run_ok_self
           dest: extends_in_bounds)

section \<open>Termination on token lists that end in EOF\<close>

lemma returns_ret: "returns (ret x)"
  by (simp add: returns_def ret_def)

lemma returns_current: "(\<And>t. returns (k t)) \<Longrightarrow> returns (seq (step (current_token s)) k)"
  by (cases "current_token s") (simp_all add: returns_def)

lemma returns_match:
  assumes "\<And>ok x. extends s x \<Longrightarrow> tokens x = tokens s \<Longrightarrow> pos s \<le> pos x \<Longrightarrow> in_bounds x \<Longrightarrow>
             returns (k ok x)"
  shows "returns (seq (step (match a v s)) (case_prod k))"
proof (cases "in_bounds s")
  case True
  from match_extends [OF True, of a v] obtain ok x where m: "match a v s = Inr (ok, x)" "extends s x"
    by blast
  from m(2) have "tokens x = tokens s" "pos s \<le> pos x" "in_bounds x"
    by (simp_all add: extends_def)
  with assms [OF m(2)] m(1) show ?thesis by simp
next
  case False
  then show ?thesis
    by (simp add: match_def current_token_def in_bounds_def returns_def)
qed

lemma returns_seq:
  assumes "returns m" and "run_ok strict s m" and "in_bounds s"
    and "\<And>x. extends s x \<Longrightarrow> tokens x = tokens s \<Longrightarrow> pos s \<le> pos x \<Longrightarrow> in_bounds x \<Longrightarrow>
           (strict \<longrightarrow> pos s + 1 < length (tokens s) \<longrightarrow> pos s < pos x) \<Longrightarrow> returns (k x)"
  shows "returns (seq m k)"
proof -
  from assms(1) obtain r where r: "m = Some r"
    by (auto simp: returns_def)
  with assms(2,3) obtain x where x: "r = Inr x" "extends s x" "strict \<longrightarrow> advances s x"
    by (auto simp: run_ok_def)
  from x(2) have "tokens x = tokens s" "pos s \<le> pos x" "in_bounds x"
    by (simp_all add: extends_def)
  with assms(4) [OF x(2)] x(3) have "returns (k x)"
    by (simp add: advances_def)
  with r x(1) show ?thesis by simp
qed

lemma not_last:
  assumes "ready s" and "kind_of (tokens s ! pos s) \<noteq> ''EOF'' \<or> value_of (tokens s ! pos s) \<noteq> []"
  shows "pos s + 1 < length (tokens s)"
proof (rule ccontr)
  assume "\<not> pos s + 1 < length (tokens s)"
  with assms(1) have "pos s = length (tokens s) - 1" "tokens s \<noteq> []"
    by (auto simp: ready_def in_bounds_def)
  then have "tokens s ! pos s = last (tokens s)"
    by (simp add: last_conv_nth)
  with assms show False
    by (simp add: ready_def ends_in_EOF_def)
qed

lemma advance_not_last:
  "pos s + 1 < length (tokens s) \<Longrightarrow> pos (advance s) = pos s + 1"
  by (simp add: advance_def)

lemma tokens_advance: "tokens (advance s) = tokens s"
  by (simp add: advance_def)

lemma parse_atom_returns: "returns (parse_atom s)"
  unfolding parse_atom_def
  by (intro returns_current) (auto intro!: returns_match returns_ret)

lemma parse_terms_returns: "ready s \<Longrightarrow> returns (parse_terms p s)"
proof (induction "3 * (length (tokens s) - pos s) + rank p" arbitrary: p s rule: less_induct)
  case less
  note ih = less.hyps
  from less.prems have b: "in_bounds s" and e: "ends_in_EOF (tokens s)"
    by (simp_all add: ready_def)
  show ?case
  proof (cases p)
    case Term
    have "returns (seq (parse_atom s) (\<lambda>s1.
              seq (step (current_token s1)) (\<lambda>t1.
                if value_of t1 = ''('' then
                  seq (step (match ''SPECIAL'' (Some ''('') s1)) (\<lambda>(ok, s2).
                  seq (parse_terms TermList s2) (\<lambda>s3.
                  seq (step (match ''SPECIAL'' (Some '')'') s3)) (\<lambda>(ok, s4). ret s4)))
                else ret s1)))"
      if atom: "kind_of (tokens s ! pos s) = ''ATOM''"
    proof -
      from atom less.prems have nl: "pos s + 1 < length (tokens s)"
        by (intro not_last) simp_all
      show ?thesis
      proof (rule returns_seq [OF parse_atom_returns parse_atom_ok [of True] b], goal_cases)
        case (1 x)
        with nl have x: "pos s < pos x" by simp
        show ?case
        proof (intro returns_current, simp add: returns_ret, intro impI returns_match, goal_cases)
          case (1 t ok y)
          with x \<open>tokens x = tokens s\<close> e have "ready y"
            "3 * (length (tokens y) - pos y) + rank TermList < 3 * (length (tokens s) - pos s) + rank p"
            by (auto simp: ready_def rank_def Term in_bounds_def)
          then have "returns (parse_terms TermList y)"
            using ih by blast
          then show ?case
            by (rule returns_seq [OF _ parse_terms_ok \<open>in_bounds y\<close>])
               (auto intro!: returns_match returns_ret)
        qed
      qed
    qed
    then show ?thesis
      unfolding Term
      by (subst parse_terms.simps)
         (auto simp: current_token_in_bounds [OF b] intro!: returns_match returns_ret)
  next
    case TermList
    from less.prems have "returns (parse_terms Term s)"
      by (intro ih) (simp_all add: TermList rank_def)
    then have "returns (seq (parse_terms Term s) (\<lambda>s1. parse_terms TermListLoop s1))"
    proof (rule returns_seq [OF _ parse_terms_ok b], goal_cases)
      case (1 x)
      with e show ?case
        by (intro ih) (auto simp: ready_def rank_def TermList)
    qed
    then show ?thesis
      unfolding TermList by (subst parse_terms.simps) simp
  next
    case TermListLoop
    have "returns (seq (step (match ''SPECIAL'' (Some '','') s)) (\<lambda>(ok, s1).
              seq (parse_terms Term s1) (\<lambda>s2. parse_terms TermListLoop s2)))"
      if comma: "value_of (tokens s ! pos s) = '',''"
    proof (rule returns_match, goal_cases)
      case (1 ok x)
      from comma less.prems have nl: "pos s + 1 < length (tokens s)"
        by (intro not_last) simp_all
      from 1 e have rx: "ready x"
        by (simp add: ready_def)
      with 1 have "returns (parse_terms Term x)"
        by (intro ih) (auto simp: rank_def TermListLoop)
      then show ?case
      proof (rule returns_seq [OF _ parse_terms_ok \<open>in_bounds x\<close>], goal_cases)
        case (1 y)
        with \<open>tokens x = tokens s\<close> \<open>pos s \<le> pos x\<close> nl e show ?case
          by (intro ih) (auto simp: ready_def rank_def TermListLoop)
      qed
    qed
    then show ?thesis
      unfolding TermListLoop
      by (subst parse_terms.simps) (auto simp: current_token_in_bounds [OF b] intro!: returns_ret)
  qed
qed

lemma parse_term_list_returns: "ready s \<Longrightarrow> returns (parse_term_list s)"
  by (simp add: parse_term_list_def parse_terms_returns)

lemma parse_predicate_returns: "ready s \<Longrightarrow> returns (parse_predicate s)"
  unfolding parse_predicate_def
proof (intro returns_current, simp add: returns_ret, intro impI, goal_cases)
  case (1 t)
  then have b: "in_bounds s" and e: "ends_in_EOF (tokens s)"
    by (simp_all add: ready_def)
  show ?case
  proof (rule returns_seq [OF parse_atom_returns parse_atom_ok [of False] b],
      intro returns_current, simp add: returns_ret, intro impI returns_match, goal_cases)
    case (1 x t1 ok y)
    with e have "ready y"
      by (simp add: ready_def)
    then have "returns (parse_term_list y)"
      by (rule parse_term_list_returns)
    then show ?case
      by (rule returns_seq [OF _ parse_term_list_ok [of False] \<open>in_bounds y\<close>])
         (auto intro!: returns_match returns_ret)
  qed
qed

lemma predicate_list_loop_returns: "ready s \<Longrightarrow> returns (predicate_list_loop s)"
proof (induction "length (tokens s) - pos s" arbitrary: s rule: less_induct)
  case less
  note ih = less.hyps
  from less.prems have b: "in_bounds s" and e: "ends_in_EOF (tokens s)"
    by (simp_all add: ready_def)
  have "returns (seq (step (match ''SPECIAL'' (Some '','') s)) (\<lambda>(ok, s1).
            seq (parse_predicate s1) (\<lambda>s2. predicate_list_loop s2)))"
    if comma: "value_of (tokens s ! pos s) = '',''"
  proof (rule returns_match, goal_cases)
    case (1 ok x)
    from comma less.prems have nl: "pos s + 1 < length (tokens s)"
      by (intro not_last) simp_all
    from 1 e have "ready x"
      by (simp add: ready_def)
    then have "returns (parse_predicate x)"
      by (rule parse_predicate_returns)
    then show ?case
    proof (rule returns_seq [OF _ parse_predicate_ok [of True] \<open>in_bounds x\<close>], goal_cases)
      case (1 y)
      with \<open>tokens x = tokens s\<close> \<open>pos s \<le> pos x\<close> nl e show ?case
        by (intro ih) (auto simp: ready_def)
    qed
  qed
  then show ?case
    by (subst predicate_list_loop.simps)
       (auto simp: current_token_in_bounds [OF b] intro!: returns_ret)
qed

lemma parse_predicate_list_returns: "ready s \<Longrightarrow> returns (parse_predicate_list s)"
  unfolding parse_predicate_list_def
proof (rule returns_seq [OF parse_predicate_returns parse_predicate_ok [of False]], goal_cases)
  case (3 x)
  then show ?case
    by (intro predicate_list_loop_returns) (simp add: ready_def)
qed (simp_all add: ready_def)

lemma parse_clause_returns: "ready s \<Longrightarrow> returns (parse_clause s)"
  unfolding parse_clause_def
proof (rule returns_seq [OF parse_predicate_returns parse_predicate_ok [of False]], goal_cases)
  case (3 x)
  then have rx: "ready x"
    by (simp add: ready_def)
  show ?case
  proof (intro returns_current, simp add: returns_ret, intro impI conjI returns_match returns_ret,
      goal_cases)
    case (1 t ok y)
    with rx have "ready y"
      by (simp add: ready_def)
    then have "returns (parse_predicate_list y)"
      by (rule parse_predicate_list_returns)
    then show ?case
      by (rule returns_seq [OF _ parse_predicate_list_ok [of False] \<open>in_bounds y\<close>])
         (auto intro!: returns_match returns_ret)
  qed
qed (simp_all add: ready_def)

lemma parse_clause_list_returns: "ready s \<Longrightarrow> returns (parse_clause_list s)"
proof (induction "length (tokens s) - pos s" arbitrary: s rule: less_induct)
  case less
  note ih = less.hyps
  from less.prems have b: "in_bounds s" and e: "ends_in_EOF (tokens s)"
    by (simp_all add: ready_def)
  have "returns (seq (parse_clause s) (\<lambda>s1. parse_clause_list s1))"
    if more: "kind_of (tokens s ! pos s) \<noteq> ''EOF''"
  proof (rule returns_seq [OF parse_clause_returns [OF less.prems] parse_clause_ok [of True] b],
      goal_cases)
    case (1 x)
    from more less.prems have nl: "pos s + 1 < length (tokens s)"
      by (intro not_last) simp_all
    with 1 e show ?case
      by (intro ih) (auto simp: ready_def)
  qed
  then show ?case
    by (subst parse_clause_list.simps)
       (auto simp: current_token_in_bounds [OF b] intro!: returns_ret)
qed

lemma parse_query_returns: "ready s \<Longrightarrow> returns (parse_query s)"
  unfolding parse_query_def
proof (intro returns_current, simp add: returns_ret, intro impI returns_match, goal_cases)
  case (1 t ok y)
  then have "ready y"
    by (simp add: ready_def)
  then have "returns (parse_predicate_list y)"
    by (rule parse_predicate_list_returns)
  then show ?case
    by (rule returns_seq [OF _ parse_predicate_list_ok [of False] \<open>in_bounds y\<close>])
       (auto intro!: returns_match returns_ret)
qed

lemma parse_program_returns: "ready s \<Longrightarrow> returns (parse_program s)"
  unfolding parse_program_def
proof (intro returns_current, simp add: parse_query_returns, intro impI, goal_cases)
  case (1 t)
  then have b: "in_bounds s" and e: "ends_in_EOF (tokens s)"
    by (simp_all add: ready_def)
  show ?case
  proof (rule returns_seq [OF parse_clause_list_returns [OF \<open>ready s\<close>] parse_clause_list_ok b],
      goal_cases)
    case (1 x)
    with e have "ready x"
      by (simp add: ready_def)
    then show ?case
      by (intro returns_current) (simp add: parse_query_returns returns_ret)
  qed
qed

section \<open>Total runs\<close>

lemma ready_Parser: "ends_in_EOF ts \<Longrightarrow> ready (Parser ts)"
  by (simp add: ready_def in_bounds_def Parser_def ends_in_EOF_def)

lemma run_total:
  assumes "returns m" and "run_ok strict s m" and "in_bounds s"
  shows "\<exists>s'. m = Some (Inr s') \<and> extends s s' \<and> (strict \<longrightarrow> advances s s')"
  using assms by (auto simp: returns_def run_ok_def)

lemma extends_cursor:
  "extends s s' \<Longrightarrow> tokens s' = tokens s \<and> pos s \<le> pos s' \<and> in_bounds s'"
  by (simp add: extends_def)

section \<open>Termination of the parser\<close>

text \<open>
  C3. On every token list that ends in the EOF token of the lexer, \<^verbatim>\<open>parse_program\<close>
  returns. In every state on such a list with the cursor in bounds the clause-list loop
  returns; when the current token is neither of kind EOF nor the text \<^verbatim>\<open>?-\<close>, the
  iteration (\<^verbatim>\<open>parse_clause\<close>) returns with the cursor strictly further and the loop
  goes on from there, and otherwise the loop stops at once.
\<close>

theorem parse_program_terminates:
  assumes "ends_in_EOF ts"
  shows "(\<exists>s'. parse_program (Parser ts) = Some (Inr s')) \<and>
         (\<forall>s. tokens s = ts \<and> in_bounds s \<longrightarrow>
            (\<exists>s'. parse_clause_list s = Some (Inr s')) \<and>
            (if kind_of (tokens s ! pos s) \<noteq> ''EOF'' \<and> value_of (tokens s ! pos s) \<noteq> ''?-''
             then \<exists>s1. parse_clause s = Some (Inr s1) \<and> pos s < pos s1 \<and>
                    parse_clause_list s = parse_clause_list s1
             else parse_clause_list s = Some (Inr s)))"
proof (intro conjI allI impI)
  from assms have r: "ready (Parser ts)"
    by (rule ready_Parser)
  then have "in_bounds (Parser ts)"
    by (simp add: ready_def)
  with run_total [OF parse_program_returns [OF r] parse_program_ok]
  show "\<exists>s'. parse_program (Parser ts) = Some (Inr s')"
    by blast
next
  fix s
  assume "tokens s = ts \<and> in_bounds s"
  with assms have r: "ready s" and b: "in_bounds s"
    by (simp_all add: ready_def)
  from run_total [OF parse_clause_list_returns [OF r] parse_clause_list_ok b]
  show "\<exists>s'. parse_clause_list s = Some (Inr s')"
    by blast
  show "if kind_of (tokens s ! pos s) \<noteq> ''EOF'' \<and> value_of (tokens s ! pos s) \<noteq> ''?-''
        then \<exists>s1. parse_clause s = Some (Inr s1) \<and> pos s < pos s1 \<and>
               parse_clause_list s = parse_clause_list s1
        else parse_clause_list s = Some (Inr s)"
  proof (cases "kind_of (tokens s ! pos s) \<noteq> ''EOF'' \<and> value_of (tokens s ! pos s) \<noteq> ''?-''")
    case True
    with r have nl: "pos s + 1 < length (tokens s)"
      by (intro not_last) simp_all
    from run_total [OF parse_clause_returns [OF r] parse_clause_ok [of True] b]
    obtain s1 where s1: "parse_clause s = Some (Inr s1)" "advances s s1"
      by blast
    from s1(2) nl have "pos s < pos s1"
      by (simp add: advances_def)
    moreover from True s1(1) b have "parse_clause_list s = parse_clause_list s1"
      by (subst parse_clause_list.simps) (simp add: current_token_in_bounds)
    ultimately show ?thesis
      using True s1(1) by simp
  next
    case False
    with b show ?thesis
      by (subst parse_clause_list.simps) (auto simp: current_token_in_bounds ret_def)
  qed
qed

theorem parse_program_terminates_witness:
  "ends_in_EOF [(''ATOM'', ''a'', 1), (''ERROR'', ''$'', 1), (''EOF'', [], 1)] \<and>
   (\<exists>s'. parse_program (Parser [(''ATOM'', ''a'', 1), (''ERROR'', ''$'', 1), (''EOF'', [], 1)]) =
      Some (Inr s'))"
  using parse_program_terminates [of "[(''ATOM'', ''a'', 1), (''ERROR'', ''$'', 1), (''EOF'', [], 1)]"]
  by (simp add: ends_in_EOF_def kind_of_def value_of_def)

section \<open>The cursor\<close>

text \<open>
  C8. On a token list that ends in EOF, from a state with the cursor in bounds, every
  operation of the parser (\<^verbatim>\<open>advance\<close>, \<^verbatim>\<open>error\<close>, \<^verbatim>\<open>match\<close> and the
  procedures of the grammar) returns in a state with the same tokens, a cursor that is not
  smaller and still in bounds, so that reading the current token does not raise; and
  \<^verbatim>\<open>advance\<close> on the last token, the EOF token, changes nothing.
\<close>

theorem cursor_monotone_in_bounds:
  assumes "ends_in_EOF (tokens s)" and "in_bounds s"
  shows "(\<forall>operation \<in> set [\<lambda>s. ret (advance s), \<lambda>s. ret (error m l s),
            \<lambda>s. seq (step (match k v s)) (\<lambda>(ok, s'). ret s'),
            parse_atom, parse_term, parse_term_list, parse_predicate, parse_predicate_list,
            parse_clause, parse_clause_list, parse_query, parse_program].
           \<exists>s'. operation s = Some (Inr s') \<and> tokens s' = tokens s \<and> pos s \<le> pos s' \<and>
             pos s' < length (tokens s') \<and> current_token s' = Inr (tokens s ! pos s')) \<and>
         (pos s = length (tokens s) - 1 \<longrightarrow> advance s = s)"
proof -
  from assms have r: "ready s"
    by (simp add: ready_def)
  note b = assms(2)
  have cursor: "\<exists>s'. m = Some (Inr s') \<and> tokens s' = tokens s \<and> pos s \<le> pos s' \<and>
      pos s' < length (tokens s') \<and> current_token s' = Inr (tokens s ! pos s')"
    if "returns m" and "run_ok False s m" for m
  proof -
    from run_total [OF that b] obtain s' where s': "m = Some (Inr s')" "extends s s'"
      by blast
    from extends_cursor [OF s'(2)] have "tokens s' = tokens s" "pos s \<le> pos s'" "in_bounds s'"
      by simp_all
    with s'(1) show ?thesis
      by (auto simp: current_token_in_bounds in_bounds_def)
  qed
  have 1: "\<exists>s'. ret (advance s) = Some (Inr s') \<and> tokens s' = tokens s \<and> pos s \<le> pos s' \<and>
      pos s' < length (tokens s') \<and> current_token s' = Inr (tokens s ! pos s')"
    by (rule cursor) (simp_all add: returns_ret run_ok_advance)
  have 2: "\<exists>s'. ret (error m l s) = Some (Inr s') \<and> tokens s' = tokens s \<and> pos s \<le> pos s' \<and>
      pos s' < length (tokens s') \<and> current_token s' = Inr (tokens s ! pos s')"
    using b by (simp add: ret_def error_def current_token_def in_bounds_def)
  have 3: "\<exists>s'. seq (step (match k v s)) (\<lambda>(ok, s'). ret s') = Some (Inr s') \<and>
      tokens s' = tokens s \<and> pos s \<le> pos s' \<and>
      pos s' < length (tokens s') \<and> current_token s' = Inr (tokens s ! pos s')"
    by (rule cursor) (auto intro!: returns_match returns_ret run_ok_match run_ok_self)
  have 4: "\<exists>s'. parse_atom s = Some (Inr s') \<and> tokens s' = tokens s \<and> pos s \<le> pos s' \<and>
      pos s' < length (tokens s') \<and> current_token s' = Inr (tokens s ! pos s')"
    by (rule cursor) (simp_all add: parse_atom_returns parse_atom_ok)
  have 5: "\<exists>s'. parse_term s = Some (Inr s') \<and> tokens s' = tokens s \<and> pos s \<le> pos s' \<and>
      pos s' < length (tokens s') \<and> current_token s' = Inr (tokens s ! pos s')"
    unfolding parse_term_def
    by (rule cursor) (simp_all add: parse_terms_returns [OF r] run_ok_weaken [OF parse_terms_ok])
  have 6: "\<exists>s'. parse_term_list s = Some (Inr s') \<and> tokens s' = tokens s \<and> pos s \<le> pos s' \<and>
      pos s' < length (tokens s') \<and> current_token s' = Inr (tokens s ! pos s')"
    by (rule cursor) (simp_all add: parse_term_list_returns [OF r] parse_term_list_ok)
  have 7: "\<exists>s'. parse_predicate s = Some (Inr s') \<and> tokens s' = tokens s \<and> pos s \<le> pos s' \<and>
      pos s' < length (tokens s') \<and> current_token s' = Inr (tokens s ! pos s')"
    by (rule cursor) (simp_all add: parse_predicate_returns [OF r] parse_predicate_ok)
  have 8: "\<exists>s'. parse_predicate_list s = Some (Inr s') \<and> tokens s' = tokens s \<and> pos s \<le> pos s' \<and>
      pos s' < length (tokens s') \<and> current_token s' = Inr (tokens s ! pos s')"
    by (rule cursor) (simp_all add: parse_predicate_list_returns [OF r] parse_predicate_list_ok)
  have 9: "\<exists>s'. parse_clause s = Some (Inr s') \<and> tokens s' = tokens s \<and> pos s \<le> pos s' \<and>
      pos s' < length (tokens s') \<and> current_token s' = Inr (tokens s ! pos s')"
    by (rule cursor) (simp_all add: parse_clause_returns [OF r] parse_clause_ok)
  have 10: "\<exists>s'. parse_clause_list s = Some (Inr s') \<and> tokens s' = tokens s \<and> pos s \<le> pos s' \<and>
      pos s' < length (tokens s') \<and> current_token s' = Inr (tokens s ! pos s')"
    by (rule cursor) (simp_all add: parse_clause_list_returns [OF r] parse_clause_list_ok)
  have 11: "\<exists>s'. parse_query s = Some (Inr s') \<and> tokens s' = tokens s \<and> pos s \<le> pos s' \<and>
      pos s' < length (tokens s') \<and> current_token s' = Inr (tokens s ! pos s')"
  proof (cases "value_of (tokens s ! pos s) = ''?-''")
    case True
    then show ?thesis
      by (intro cursor) (simp_all add: parse_query_returns [OF r] parse_query_ok)
  next
    case False
    with b show ?thesis
      by (simp add: parse_query_def current_token_in_bounds ret_def error_def
            current_token_def in_bounds_def)
  qed
  have 12: "\<exists>s'. parse_program s = Some (Inr s') \<and> tokens s' = tokens s \<and> pos s \<le> pos s' \<and>
      pos s' < length (tokens s') \<and> current_token s' = Inr (tokens s ! pos s')"
    by (rule cursor) (simp_all add: parse_program_returns [OF r] parse_program_ok)
  have 13: "pos s = length (tokens s) - 1 \<longrightarrow> advance s = s"
    by (simp add: advance_def)
  from 1 2 3 4 5 6 7 8 9 10 11 12 13 show ?thesis
    by (simp only: list.set ball_simps simp_thms)
qed

theorem cursor_monotone_in_bounds_witness:
  "ends_in_EOF (tokens (Parser [(''ATOM'', ''a'', 1), (''SPECIAL'', ''.'', 1), (''EOF'', [], 1)])) \<and>
   in_bounds (Parser [(''ATOM'', ''a'', 1), (''SPECIAL'', ''.'', 1), (''EOF'', [], 1)]) \<and>
   (\<exists>s'. parse_program (Parser [(''ATOM'', ''a'', 1), (''SPECIAL'', ''.'', 1), (''EOF'', [], 1)]) =
            Some (Inr s') \<and>
      tokens s' = [(''ATOM'', ''a'', 1), (''SPECIAL'', ''.'', 1), (''EOF'', [], 1)] \<and>
      pos s' < 3)"
  using cursor_monotone_in_bounds
    [where s = "Parser [(''ATOM'', ''a'', 1), (''SPECIAL'', ''.'', 1), (''EOF'', [], 1)]"
       and m = "[]" and l = 0 and k = "[]" and v = None]
  by (auto simp: ends_in_EOF_def in_bounds_def Parser_def kind_of_def value_of_def)

section \<open>The failure branch of the query\<close>

text \<open>
  C10. Whatever the token list, when \<^verbatim>\<open>parse_program\<close> is run on a fresh parser and
  returns, no entry of the error list is the message
  \<^verbatim>\<open>Query should start with '?-'\<close> of the failure branch of \<^verbatim>\<open>parse_query\<close>, at any
  line; and on a token list that ends in EOF it does return, with such an error list.
\<close>

theorem query_failure_branch_unreachable:
  "(parse_program (Parser ts) = Some (Inr s') \<longrightarrow>
      error_msg (''Query should start with '' @ quoted ''?-'') ln \<notin> set (errors s')) \<and>
   (ends_in_EOF ts \<longrightarrow>
      (\<exists>s''. parse_program (Parser ts) = Some (Inr s'') \<and>
         error_msg (''Query should start with '' @ quoted ''?-'') ln \<notin> set (errors s'')))"
proof -
  have safe: "error_msg (''Query should start with '' @ quoted ''?-'') ln \<notin> set (errors x)"
    if run: "parse_program (Parser ts) = Some (Inr x)" for x
  proof (cases "ts = []")
    case True
    with run show ?thesis
      by (simp add: parse_program_def current_token_def Parser_def)
  next
    case False
    then have "in_bounds (Parser ts)"
      by (simp add: in_bounds_def Parser_def)
    with parse_program_ok [of "Parser ts"] run have "extends (Parser ts) x"
      by (simp add: run_ok_def)
    then show ?thesis
      by (auto simp: extends_def Parser_def query_message_def)
  qed
  have total: "\<exists>x. parse_program (Parser ts) = Some (Inr x)" if "ends_in_EOF ts"
  proof -
    from that have r: "ready (Parser ts)"
      by (rule ready_Parser)
    then have "in_bounds (Parser ts)"
      by (simp add: ready_def)
    with run_total [OF parse_program_returns [OF r] parse_program_ok] show ?thesis
      by blast
  qed
  from safe total show ?thesis
    by blast
qed

theorem query_failure_branch_unreachable_witness:
  "parse_program (Parser (tokenize ''?- a b.'')) =
     Some (Inr \<lparr>tokens = tokenize ''?- a b.'', pos = 2,
                errors = [error_msg (''Expected SPECIAL '' @ quoted ''.'' @ '' but found ATOM '' @
                                     quoted ''b'') 1]\<rparr>) \<and>
   error_msg (''Query should start with '' @ quoted ''?-'') 1 \<notin>
     set (errors \<lparr>tokens = tokenize ''?- a b.'', pos = 2,
                  errors = [error_msg (''Expected SPECIAL '' @ quoted ''.'' @ '' but found ATOM '' @
                                       quoted ''b'') 1]\<rparr>)"
proof -
  have run: "parse_program (Parser (tokenize ''?- a b.'')) =
     Some (Inr \<lparr>tokens = tokenize ''?- a b.'', pos = 2,
                errors = [error_msg (''Expected SPECIAL '' @ quoted ''.'' @ '' but found ATOM '' @
                                     quoted ''b'') 1]\<rparr>)"
    by code_simp
  from query_failure_branch_unreachable [THEN conjunct1, THEN mp, OF run, of 1] run show ?thesis
    by (intro conjI)
qed

section \<open>Tokens after a query\<close>

text \<open>
  C1, at the input \<^verbatim>\<open>?- a. )\<close>: \<^verbatim>\<open>parse_program\<close> returns with an empty error list
  and the cursor on the fourth of the five tokens, the closing parenthesis that follows the
  query; that token is never examined and the cursor is not on the EOF token.
\<close>

theorem tokens_after_query_unexamined:
  "tokenize ''?- a. )'' =
     [(''SPECIAL'', ''?-'', 1), (''ATOM'', ''a'', 1), (''SPECIAL'', ''.'', 1),
      (''SPECIAL'', '')'', 1), (''EOF'', [], 1)] \<and>
   parse_program (Parser (tokenize ''?- a. )'')) =
     Some (Inr \<lparr>tokens = tokenize ''?- a. )'', pos = 3, errors = []\<rparr>) \<and>
   check_syntax ''?- a. )'' = Some (Inr [])"
proof -
  have "tokenize ''?- a. )'' =
     [(''SPECIAL'', ''?-'', 1), (''ATOM'', ''a'', 1), (''SPECIAL'', ''.'', 1),
      (''SPECIAL'', '')'', 1), (''EOF'', [], 1)]"
    by code_simp
  moreover have "parse_program (Parser (tokenize ''?- a. )'')) =
     Some (Inr \<lparr>tokens = tokenize ''?- a. )'', pos = 3, errors = []\<rparr>)"
    by code_simp
  moreover have "check_syntax ''?- a. )'' = Some (Inr [])"
    by code_simp
  ultimately show ?thesis
    by (intro conjI)
qed

section \<open>A missing comma\<close>

text \<open>
  C2 as stated fails: on \<^verbatim>\<open>parent(tom bob).\<close> the error list does not have exactly one
  entry.
\<close>

theorem missing_comma_not_one_error:
  "map_option (map_sum id length) (check_syntax ''parent(tom bob).'') \<noteq> Some (Inr 1)"
  by code_simp

text \<open>
  C2, amended. On \<^verbatim>\<open>parent(tom bob).\<close> the lexer followed by \<^verbatim>\<open>parse_program\<close>
  yields exactly three errors, each at line 1: the closing parenthesis expected at
  \<^verbatim>\<open>bob\<close>, the clause that does not end there, and the predicate that cannot start at
  the closing parenthesis.
\<close>

theorem missing_comma_three_errors:
  "check_syntax ''parent(tom bob).'' =
     Some (Inr
       [error_msg (''Expected SPECIAL '' @ quoted '')'' @ '' but found ATOM '' @ quoted ''bob'') 1,
        error_msg (''Clause must end with '' @ quoted ''.'' @ '' or use '' @ quoted '':-'' @
                   '' followed by a predicate list and a '' @ quoted ''.'') 1,
        error_msg ''Predicate must start with an atom'' 1])"
  by code_simp

section \<open>The contract of match\<close>

text \<open>
  C6 as stated fails: on the last token a successful \<^verbatim>\<open>match\<close> returns true and
  leaves the cursor where it is.
\<close>

theorem match_success_without_advance:
  "match ''EOF'' None \<lparr>tokens = [(''EOF'', [], 1)], pos = 0, errors = []\<rparr> =
     Inr (True, \<lparr>tokens = [(''EOF'', [], 1)], pos = 0, errors = []\<rparr>)"
  by (simp add: match_def current_token_def advance_def kind_of_def)

text \<open>
  C6, amended. In every state with the cursor in bounds, \<^verbatim>\<open>match\<close> does not raise; it
  succeeds exactly when the kind of the current token is the expected kind and, if a value
  is expected, its text is that value. On success it returns true, the error list is
  unchanged and the cursor has moved by exactly one, unless it is on the last token, where
  it stays. On failure it returns false, the cursor is unchanged and exactly one error is
  appended, \<^verbatim>\<open>Syntax Error at line\<close> with the line of the current token, then the
  expected and the found token.
\<close>

theorem match_contract:
  assumes "pos s < length (tokens s)"
  shows "match expected_type expected_value s =
     (if kind_of (tokens s ! pos s) = expected_type \<and>
         (expected_value = None \<or> expected_value = Some (value_of (tokens s ! pos s)))
      then Inr (True, s\<lparr>pos := if pos s + 1 < length (tokens s) then pos s + 1 else pos s\<rparr>)
      else Inr (False, s\<lparr>errors := errors s @
             [''Syntax Error at line '' @ str_int (line_of (tokens s ! pos s)) @ '': '' @
              ''Expected '' @ expected_type @ '' '' @ quoted (str_opt expected_value) @
              '' but found '' @ kind_of (tokens s ! pos s) @ '' '' @
              quoted (value_of (tokens s ! pos s))]\<rparr>))"
  using assms
  by (auto simp: match_def current_token_def advance_def error_def error_msg_def)

theorem match_contract_witness:
  "pos (Parser (tokenize ''a.'')) < length (tokens (Parser (tokenize ''a.''))) \<and>
   match ''ATOM'' None (Parser (tokenize ''a.'')) =
     Inr (True, \<lparr>tokens = tokenize ''a.'', pos = 1, errors = []\<rparr>) \<and>
   match ''SPECIAL'' (Some ''.'') (Parser (tokenize ''a.'')) =
     Inr (False, \<lparr>tokens = tokenize ''a.'', pos = 0,
        errors = [''Syntax Error at line 1: Expected SPECIAL '' @ quoted ''.'' @
                  '' but found ATOM '' @ quoted ''a'']\<rparr>)"
proof -
  have t: "tokenize ''a.'' = [(''ATOM'', ''a'', 1), (''SPECIAL'', ''.'', 1), (''EOF'', [], 1)]"
    by code_simp
  have b: "pos (Parser (tokenize ''a.'')) < length (tokens (Parser (tokenize ''a.'')))"
    by (simp add: t Parser_def)
  have one: "str_int 1 = ''1''"
    by code_simp
  from match_contract [OF b, of "''ATOM''" None]
  have "match ''ATOM'' None (Parser (tokenize ''a.'')) =
     Inr (True, \<lparr>tokens = tokenize ''a.'', pos = 1, errors = []\<rparr>)"
    by (simp add: t Parser_def kind_of_def)
  moreover from match_contract [OF b, of "''SPECIAL''" "Some ''.''"]
  have "match ''SPECIAL'' (Some ''.'') (Parser (tokenize ''a.'')) =
     Inr (False, \<lparr>tokens = tokenize ''a.'', pos = 0,
        errors = [''Syntax Error at line 1: Expected SPECIAL '' @ quoted ''.'' @
                  '' but found ATOM '' @ quoted ''a'']\<rparr>)"
    by (simp add: t Parser_def kind_of_def value_of_def line_of_def str_opt_def one)
  ultimately show ?thesis
    using b by (intro conjI)
qed

section \<open>The lexer\<close>

declare tokenize_loop.simps [simp del]

lemma newline_class [simp]:
  "\<not> is_digit newline" "\<not> is_lower newline" "\<not> is_upper newline" "\<not> is_word newline"
  "\<not> is_blank newline" "newline \<noteq> CHR ''_''" "newline \<notin> set ''.,(),''"
  by (simp_all add: is_digit_def is_lower_def is_upper_def is_word_def is_blank_def newline_def)

lemma count_takeWhile: "\<not> P x \<Longrightarrow> count_list (takeWhile P xs) x = 0"
  by (auto simp: count_list_0_iff dest: set_takeWhileD)

lemma take_takeWhile: "take (length (takeWhile P xs)) xs = takeWhile P xs"
  by (rule takeWhile_eq_take [symmetric])

text \<open>Every offset inside the text has a match: its group, its text and its newlines.\<close>

lemma get_token_total:
  assumes "p < length inp"
  shows "\<exists>k v. get_token inp p = Some (k, v) \<and> v \<noteq> [] \<and> take (length v) (drop p inp) = v \<and>
           k \<noteq> ''EOF'' \<and>
           count_list v newline = (if k = ''NEWLINE'' then 1 else 0)"
proof -
  from assms obtain c cs where d: "drop p inp = c # cs"
    by (cases "drop p inp") auto
  consider (number) "is_digit c"
    | (atom) "\<not> is_digit c" "is_lower c"
    | (variable) "\<not> is_digit c" "\<not> is_lower c" "is_upper c \<or> c = CHR ''_''"
    | (query) "\<not> is_digit c" "\<not> is_lower c" "\<not> (is_upper c \<or> c = CHR ''_'')"
        "take 2 (c # cs) = ''?-''"
    | (neck) "\<not> is_digit c" "\<not> is_lower c" "\<not> (is_upper c \<or> c = CHR ''_'')"
        "take 2 (c # cs) \<noteq> ''?-''" "take 2 (c # cs) = '':-''"
    | (special) "\<not> is_digit c" "\<not> is_lower c" "\<not> (is_upper c \<or> c = CHR ''_'')"
        "take 2 (c # cs) \<noteq> ''?-''" "take 2 (c # cs) \<noteq> '':-''" "c \<in> set ''.,(),''"
    | (skip) "\<not> is_digit c" "\<not> is_lower c" "\<not> (is_upper c \<or> c = CHR ''_'')"
        "take 2 (c # cs) \<noteq> ''?-''" "take 2 (c # cs) \<noteq> '':-''" "c \<notin> set ''.,(),''"
        "is_blank c"
    | (newline) "\<not> is_digit c" "\<not> is_lower c" "\<not> (is_upper c \<or> c = CHR ''_'')"
        "take 2 (c # cs) \<noteq> ''?-''" "take 2 (c # cs) \<noteq> '':-''" "c \<notin> set ''.,(),''"
        "\<not> is_blank c" "c = newline"
    | (mismatch) "\<not> is_digit c" "\<not> is_lower c" "\<not> (is_upper c \<or> c = CHR ''_'')"
        "take 2 (c # cs) \<noteq> ''?-''" "take 2 (c # cs) \<noteq> '':-''" "c \<notin> set ''.,(),''"
        "\<not> is_blank c" "c \<noteq> newline"
    by blast
  then show ?thesis
  proof cases
    case number
    then have "get_token inp p = Some (''NUMBER'', c # takeWhile is_digit cs)"
      by (simp add: get_token_def d)
    moreover have "take (length (takeWhile is_digit cs)) cs = takeWhile is_digit cs"
      by (rule take_takeWhile)
    moreover from number have "c \<noteq> newline"
      by auto
    ultimately show ?thesis
      by (simp add: d count_takeWhile)
  next
    case atom
    then have "get_token inp p = Some (''ATOM'', c # takeWhile is_word cs)"
      by (simp add: get_token_def d)
    moreover have "take (length (takeWhile is_word cs)) cs = takeWhile is_word cs"
      by (rule take_takeWhile)
    moreover from atom have "c \<noteq> newline"
      by auto
    ultimately show ?thesis
      by (simp add: d count_takeWhile)
  next
    case variable
    then have "get_token inp p = Some (''VARIABLE'', c # takeWhile is_word cs)"
      by (simp add: get_token_def d)
    moreover have "take (length (takeWhile is_word cs)) cs = takeWhile is_word cs"
      by (rule take_takeWhile)
    moreover from variable have "c \<noteq> newline"
      by auto
    ultimately show ?thesis
      by (simp add: d count_takeWhile)
  next
    case query
    then have "get_token inp p = Some (''SPECIAL'', ''?-'')"
      by (simp add: get_token_def d)
    with query(4) show ?thesis
      by (simp add: d newline_def)
  next
    case neck
    then have "get_token inp p = Some (''SPECIAL'', '':-'')"
      by (simp add: get_token_def d)
    with neck(5) show ?thesis
      by (simp add: d newline_def)
  next
    case special
    then have "get_token inp p = Some (''SPECIAL'', [c])"
      by (simp add: get_token_def d)
    moreover from special have "c \<noteq> newline"
      by (auto simp: newline_def)
    ultimately show ?thesis
      by (simp add: d)
  next
    case skip
    then have "get_token inp p = Some (''SKIP'', c # takeWhile is_blank cs)"
      by (simp add: get_token_def d)
    moreover have "take (length (takeWhile is_blank cs)) cs = takeWhile is_blank cs"
      by (rule take_takeWhile)
    moreover from skip have "c \<noteq> newline"
      by auto
    ultimately show ?thesis
      by (simp add: d count_takeWhile)
  next
    case newline
    then have "get_token inp p = Some (''NEWLINE'', [c])"
      by (simp add: get_token_def d)
    with newline show ?thesis
      by (simp add: d)
  next
    case mismatch
    then have "get_token inp p = Some (''MISMATCH'', [c])"
      by (simp add: get_token_def d)
    with mismatch show ?thesis
      by (simp add: d)
  qed
qed

lemma count_drop_split:
  assumes "take (length v) (drop p inp) = v"
  shows "count_list (drop p inp) x = count_list v x + count_list (drop (p + length v) inp) x"
proof -
  have "drop (length v) (drop p inp) = drop (p + length v) inp"
    by (simp add: add.commute)
  with append_take_drop_id [of "length v" "drop p inp"] assms
  have "drop p inp = v @ drop (p + length v) inp"
    by simp
  then show ?thesis
    by (metis count_list_append)
qed

text \<open>
  The loop started at offset \<open>p\<close> keeps the tokens it has, appends tokens of the five
  kinds of the lexer and adds to the line the newlines from \<open>p\<close> on.
\<close>

lemma tokenize_loop_result:
  "\<exists>new. tokenize_loop inp p toks ln =
            (toks @ new, ln + int (count_list (drop p inp) newline)) \<and>
         (\<forall>t \<in> set new. kind_of t \<noteq> ''EOF'')"
proof (induction inp p toks ln rule: tokenize_loop.induct)
  case (1 inp p toks ln)
  show ?case
  proof (cases "p < length inp")
    case False
    then show ?thesis
      by (subst tokenize_loop.simps) simp
  next
    case True
    from get_token_total [OF True] obtain k v where
      g: "get_token inp p = Some (k, v)" and
      v: "take (length v) (drop p inp) = v" and
      k: "k \<noteq> ''EOF''" and
      n: "count_list v newline = (if k = ''NEWLINE'' then 1 else 0)"
      by blast
    note c = count_drop_split [OF v, of newline]
    show ?thesis
    proof (cases "k = ''NEWLINE''")
      case True
      from "1.IH"(1) [OF \<open>p < length inp\<close> g refl True] obtain new where
        "tokenize_loop inp (p + length v) toks (ln + 1) =
           (toks @ new, ln + 1 + int (count_list (drop (p + length v) inp) newline))"
        "\<forall>t \<in> set new. kind_of t \<noteq> ''EOF''"
        by blast
      with \<open>p < length inp\<close> g True c n show ?thesis
        by (subst tokenize_loop.simps) simp
    next
      case nl: False
      show ?thesis
      proof (cases "k = ''SKIP''")
        case True
        from "1.IH"(2) [OF \<open>p < length inp\<close> g refl nl True] obtain new where
          "tokenize_loop inp (p + length v) toks ln =
             (toks @ new, ln + int (count_list (drop (p + length v) inp) newline))"
          "\<forall>t \<in> set new. kind_of t \<noteq> ''EOF''"
          by blast
        with \<open>p < length inp\<close> g nl True c n show ?thesis
          by (subst tokenize_loop.simps) simp
      next
        case sk: False
        show ?thesis
        proof (cases "k = ''MISMATCH''")
          case True
          from "1.IH"(3) [OF \<open>p < length inp\<close> g refl nl sk True] obtain new where
            new: "tokenize_loop inp (p + length v) (toks @ [(''ERROR'', v, ln)]) ln =
               ((toks @ [(''ERROR'', v, ln)]) @ new,
                ln + int (count_list (drop (p + length v) inp) newline))"
            "\<forall>t \<in> set new. kind_of t \<noteq> ''EOF''"
            by blast
          have "kind_of (''ERROR'', v, ln) \<noteq> ''EOF''"
            by (simp add: kind_of_def)
          with new(2) have "\<forall>t \<in> set ((''ERROR'', v, ln) # new). kind_of t \<noteq> ''EOF''"
            by simp
          moreover from \<open>p < length inp\<close> g nl sk True c n new(1)
          have "tokenize_loop inp p toks ln =
              (toks @ (''ERROR'', v, ln) # new, ln + int (count_list (drop p inp) newline))"
            by (subst tokenize_loop.simps) simp
          ultimately show ?thesis
            by blast
        next
          case mm: False
          from "1.IH"(4) [OF \<open>p < length inp\<close> g refl nl sk mm] obtain new where
            new: "tokenize_loop inp (p + length v) (toks @ [(k, v, ln)]) ln =
               ((toks @ [(k, v, ln)]) @ new,
                ln + int (count_list (drop (p + length v) inp) newline))"
            "\<forall>t \<in> set new. kind_of t \<noteq> ''EOF''"
            by blast
          from k have "kind_of (k, v, ln) \<noteq> ''EOF''"
            by (simp add: kind_of_def)
          with new(2) have "\<forall>t \<in> set ((k, v, ln) # new). kind_of t \<noteq> ''EOF''"
            by simp
          moreover from \<open>p < length inp\<close> g nl sk mm c n new(1)
          have "tokenize_loop inp p toks ln =
              (toks @ (k, v, ln) # new, ln + int (count_list (drop p inp) newline))"
            by (subst tokenize_loop.simps) simp
          ultimately show ?thesis
            by blast
        qed
      qed
    qed
  qed
qed

lemma tokenize_shape:
  "\<exists>front. tokenize inp = front @ [(''EOF'', [], 1 + int (count_list inp newline))] \<and>
     (\<forall>t \<in> set front. kind_of t \<noteq> ''EOF'')"
  using tokenize_loop_result [of inp 0 "[]" 1] by (auto simp: tokenize_def)

lemma tokenize_ends_in_EOF: "ends_in_EOF (tokenize inp)"
  using tokenize_shape [of inp] by (auto simp: ends_in_EOF_def kind_of_def value_of_def)

text \<open>
  C4. For every input the token list of the lexer (a total function: the loop terminates)
  ends with an EOF token whose line is 1 plus the number of newline characters of the whole
  input, and it holds exactly one token of kind EOF.
\<close>

theorem tokenize_one_EOF_with_line:
  "last (tokenize inp) = (''EOF'', [], 1 + int (count_list inp newline)) \<and>
   length (filter (\<lambda>t. kind_of t = ''EOF'') (tokenize inp)) = 1"
proof -
  from tokenize_shape [of inp] obtain front where
    t: "tokenize inp = front @ [(''EOF'', [], 1 + int (count_list inp newline))]" and
    f: "\<forall>t \<in> set front. kind_of t \<noteq> ''EOF''"
    by blast
  from f have "filter (\<lambda>t. kind_of t = ''EOF'') front = []"
    by (simp add: filter_empty_conv)
  with t show ?thesis
    by (simp add: kind_of_def)
qed

section \<open>Characters that match no token\<close>

lemma drop_nth: "p < length inp \<Longrightarrow> drop p inp = inp ! p # drop (Suc p) inp"
  by (rule Cons_nth_drop_Suc [symmetric])

lemma get_token_unmatched:
  assumes "p < length inp" and "\<not> begins_token inp p" and "\<not> is_blank (inp ! p)"
    and "inp ! p \<noteq> newline"
  shows "get_token inp p = Some (''MISMATCH'', [inp ! p])"
  using assms(2-) unfolding begins_token_def get_token_def drop_nth [OF assms(1)]
  by (simp split: if_splits)

lemma not_stray:
  "is_digit x \<Longrightarrow> \<not> stray x"
  "is_lower x \<Longrightarrow> \<not> stray x"
  "is_upper x \<Longrightarrow> \<not> stray x"
  "is_word x \<Longrightarrow> \<not> stray x"
  "is_blank x \<Longrightarrow> \<not> stray x"
  "x \<in> set ''.,(),'' \<Longrightarrow> \<not> stray x"
  "\<not> stray newline" "\<not> stray (CHR ''_'')"
  "\<not> stray (CHR ''?'')" "\<not> stray (CHR '':'')" "\<not> stray (CHR ''-'')"
  by (auto simp: stray_def is_word_def)

lemma get_token_stray:
  assumes "p < length inp" and "stray (inp ! p)"
  shows "get_token inp p = Some (''MISMATCH'', [inp ! p])"
proof -
  from assms(2) not_stray(1-6) [of "inp ! p"]
  have "\<not> is_digit (inp ! p)" "\<not> is_lower (inp ! p)" "\<not> is_upper (inp ! p)"
    "\<not> is_blank (inp ! p)" "inp ! p \<notin> set ''.,(),''"
    by blast+
  moreover from assms(2) not_stray(7-10)
  have "inp ! p \<noteq> newline" "inp ! p \<noteq> CHR ''_''" "inp ! p \<noteq> CHR ''?''"
    "inp ! p \<noteq> CHR '':''"
    by metis+
  ultimately show ?thesis
    unfolding get_token_def drop_nth [OF assms(1)] by simp
qed

lemma get_token_shape:
  assumes "drop p inp = c # cs"
  shows "get_token inp p = Some (''NUMBER'', c # takeWhile is_digit cs) \<and> is_digit c \<or>
         get_token inp p = Some (''ATOM'', c # takeWhile is_word cs) \<and> is_lower c \<or>
         get_token inp p = Some (''VARIABLE'', c # takeWhile is_word cs) \<and>
           (is_upper c \<or> c = CHR ''_'') \<or>
         get_token inp p = Some (''SPECIAL'', ''?-'') \<or>
         get_token inp p = Some (''SPECIAL'', '':-'') \<or>
         get_token inp p = Some (''SPECIAL'', [c]) \<and> c \<in> set ''.,(),'' \<or>
         get_token inp p = Some (''SKIP'', c # takeWhile is_blank cs) \<and> is_blank c \<or>
         get_token inp p = Some (''NEWLINE'', [c]) \<and> c = newline \<or>
         get_token inp p = Some (''MISMATCH'', [c])"
  unfolding get_token_def assms by simp

lemma get_token_chars:
  assumes "get_token inp q = Some (k, v)" and "k \<noteq> ''MISMATCH''" and "x \<in> set v"
  shows "\<not> stray x"
proof (cases "drop q inp")
  case Nil
  with assms(1) show ?thesis
    by (simp add: get_token_def)
next
  case (Cons c cs)
  from get_token_shape [OF Cons] assms(1,2)
  consider "v = c # takeWhile is_digit cs" "is_digit c"
    | "v = c # takeWhile is_word cs" "is_lower c \<or> is_upper c \<or> c = CHR ''_''"
    | "v = ''?-''" | "v = '':-''" | "v = [c]" "c \<in> set ''.,(),''"
    | "v = c # takeWhile is_blank cs" "is_blank c" | "v = [c]" "c = newline"
    by fastforce
  then show ?thesis
  proof cases
    case 1
    with assms(3) show ?thesis
      by (auto simp: not_stray dest: set_takeWhileD)
  next
    case 2
    with assms(3) show ?thesis
      by (auto simp: not_stray dest: set_takeWhileD)
  next
    case 3
    with assms(3) not_stray(9,11) show ?thesis by auto
  next
    case 4
    with assms(3) not_stray(10,11) show ?thesis by auto
  next
    case 5
    with assms(3) not_stray(6) show ?thesis by auto
  next
    case 6
    with assms(3) show ?thesis
      by (auto simp: not_stray dest: set_takeWhileD)
  next
    case 7
    with assms(3) not_stray(7) show ?thesis by auto
  qed
qed

lemma mismatch_step:
  "p < length inp \<Longrightarrow> get_token inp p = Some (''MISMATCH'', v) \<Longrightarrow>
   tokenize_loop inp p toks ln =
     tokenize_loop inp (p + length v) (toks @ [(''ERROR'', v, ln)]) ln"
  by (subst tokenize_loop.simps) simp

lemma tokenize_loop_keeps: "set toks \<subseteq> set (fst (tokenize_loop inp p toks ln))"
  using tokenize_loop_result [of inp p toks ln] by auto

text \<open>
  A stray character is never inside a longer match, so the loop reaches its offset and
  emits it, at the line of the newlines before it.
\<close>

lemma stray_char_token:
  "q \<le> p \<Longrightarrow> p < length inp \<Longrightarrow> stray (inp ! p) \<Longrightarrow>
   (''ERROR'', [inp ! p], ln + int (count_list (take (p - q) (drop q inp)) newline))
     \<in> set (fst (tokenize_loop inp q toks ln))"
proof (induction inp q toks ln rule: tokenize_loop.induct)
  case (1 inp q toks ln)
  note p = \<open>p < length inp\<close> and s = \<open>stray (inp ! p)\<close>
  from "1.prems" have q: "q < length inp"
    by simp
  show ?case
  proof (cases "q = p")
    case True
    from mismatch_step [OF p get_token_stray [OF p s], of toks ln]
      tokenize_loop_keeps [of "toks @ [(''ERROR'', [inp ! p], ln)]" inp "p + 1" ln]
    show ?thesis
      by (simp add: True)
  next
    case False
    with "1.prems" have lt: "q < p"
      by simp
    from get_token_total [OF q] obtain k v where
      g: "get_token inp q = Some (k, v)" and ne: "v \<noteq> []" and
      v: "take (length v) (drop q inp) = v" and
      n: "count_list v newline = (if k = ''NEWLINE'' then 1 else 0)"
      by blast
    have le: "q + length v \<le> p"
    proof (rule ccontr)
      assume "\<not> q + length v \<le> p"
      with lt have i: "p - q < length v"
        by simp
      then have "v ! (p - q) \<in> set v"
        by (rule nth_mem)
      moreover from i lt q have "v ! (p - q) = inp ! p"
        by (subst v [symmetric]) simp
      ultimately have in_v: "inp ! p \<in> set v"
        by simp
      show False
      proof (cases "k = ''MISMATCH''")
        case True
        from get_token_shape [OF drop_nth [OF q]] g True have "v = [inp ! q]"
          by auto
        with i lt show False
          by simp
      next
        case False
        from get_token_chars [OF g False in_v] s show False
          by simp
      qed
    qed
    have split: "take (p - q) (drop q inp) = v @ take (p - (q + length v)) (drop (q + length v) inp)"
    proof -
      have "drop (length v) (drop q inp) = drop (q + length v) inp"
        by (simp add: add.commute)
      with append_take_drop_id [of "length v" "drop q inp"] v
      have "drop q inp = v @ drop (q + length v) inp"
        by simp
      then have "take (p - q) (drop q inp) = take (p - q) (v @ drop (q + length v) inp)"
        by simp
      also from le have "\<dots> = v @ take (p - (q + length v)) (drop (q + length v) inp)"
        by simp
      finally show ?thesis .
    qed
    have count: "count_list (take (p - q) (drop q inp)) newline =
        count_list v newline +
        count_list (take (p - (q + length v)) (drop (q + length v) inp)) newline"
      unfolding split by (rule count_list_append)
    show ?thesis
    proof (cases "k = ''NEWLINE''")
      case True
      from "1.IH"(1) [OF q g refl True le p s] q g True count n show ?thesis
        by (subst tokenize_loop.simps) (simp add: add.assoc)
    next
      case nl: False
      show ?thesis
      proof (cases "k = ''SKIP''")
        case True
        from "1.IH"(2) [OF q g refl nl True le p s] q g nl True count n show ?thesis
          by (subst tokenize_loop.simps) simp
      next
        case sk: False
        show ?thesis
        proof (cases "k = ''MISMATCH''")
          case True
          from "1.IH"(3) [OF q g refl nl sk True le p s] q g nl sk True count n show ?thesis
            by (subst tokenize_loop.simps) simp
        next
          case mm: False
          from "1.IH"(4) [OF q g refl nl sk mm le p s] q g nl sk mm count n show ?thesis
            by (subst tokenize_loop.simps) simp
        qed
      qed
    qed
  qed
qed

text \<open>
  C7. Tokenization is a total function that never raises: at every offset of the text the
  alternation matches (the loop is never left by \<^verbatim>\<open>break\<close>), and the token list ends
  with the EOF token. When the loop is at an offset where no NUMBER, ATOM, VARIABLE or
  SPECIAL match begins and the character is neither blank nor a newline, it appends the
  ERROR token with that one character and the current line and goes on one character
  further, and that token is in the tokens it returns. A character that occurs in no other
  pattern is reached wherever it stands in the text: its ERROR token, with the line of the
  newlines before it, is in the token list.
\<close>

theorem unmatched_character_is_ERROR_token:
  "(\<forall>q < length inp. get_token inp q \<noteq> None) \<and>
   tokenize inp \<noteq> [] \<and> kind_of (last (tokenize inp)) = ''EOF'' \<and>
   (p < length inp \<and> \<not> begins_token inp p \<and> \<not> is_blank (inp ! p) \<and> inp ! p \<noteq> newline \<longrightarrow>
      tokenize_loop inp p toks ln =
        tokenize_loop inp (p + 1) (toks @ [(''ERROR'', [inp ! p], ln)]) ln \<and>
      (''ERROR'', [inp ! p], ln) \<in> set (fst (tokenize_loop inp p toks ln))) \<and>
   (p < length inp \<and> stray (inp ! p) \<longrightarrow>
      (''ERROR'', [inp ! p], 1 + int (count_list (take p inp) newline)) \<in> set (tokenize inp))"
proof (intro conjI allI impI)
  fix q
  assume "q < length inp"
  from get_token_total [OF this] show "get_token inp q \<noteq> None"
    by auto
next
  from tokenize_shape [of inp] show "tokenize inp \<noteq> []" "kind_of (last (tokenize inp)) = ''EOF''"
    by (auto simp: kind_of_def)
next
  assume a: "p < length inp \<and> \<not> begins_token inp p \<and> \<not> is_blank (inp ! p) \<and> inp ! p \<noteq> newline"
  then have g: "get_token inp p = Some (''MISMATCH'', [inp ! p])"
    by (intro get_token_unmatched) simp_all
  from a mismatch_step [OF _ g, of toks ln]
  show step: "tokenize_loop inp p toks ln =
      tokenize_loop inp (p + 1) (toks @ [(''ERROR'', [inp ! p], ln)]) ln"
    by simp
  from tokenize_loop_keeps [of "toks @ [(''ERROR'', [inp ! p], ln)]" inp "p + 1" ln]
  show "(''ERROR'', [inp ! p], ln) \<in> set (fst (tokenize_loop inp p toks ln))"
    unfolding step by simp
next
  assume a: "p < length inp \<and> stray (inp ! p)"
  then have "(''ERROR'', [inp ! p], 1 + int (count_list (take (p - 0) (drop 0 inp)) newline))
      \<in> set (fst (tokenize_loop inp 0 [] 1))"
    by (intro stray_char_token) simp_all
  then show "(''ERROR'', [inp ! p], 1 + int (count_list (take p inp) newline)) \<in> set (tokenize inp)"
    by (cases "tokenize_loop inp 0 [] 1") (simp add: tokenize_def)
qed

theorem unmatched_character_is_ERROR_token_witness:
  "(2::nat) < length ''a $b'' \<and> \<not> begins_token ''a $b'' 2 \<and> \<not> is_blank (''a $b'' ! 2) \<and>
   ''a $b'' ! 2 \<noteq> newline \<and> stray (''a $b'' ! 2) \<and>
   tokenize_loop ''a $b'' 2 [(''ATOM'', ''a'', 1)] 1 =
     tokenize_loop ''a $b'' 3 [(''ATOM'', ''a'', 1), (''ERROR'', ''$'', 1)] 1 \<and>
   (''ERROR'', ''$'', 1) \<in> set (tokenize ''a $b'')"
proof -
  have h: "(2::nat) < length ''a $b''" "\<not> begins_token ''a $b'' 2" "\<not> is_blank (''a $b'' ! 2)"
    "''a $b'' ! 2 \<noteq> newline" "stray (''a $b'' ! 2)"
    by code_simp+
  from unmatched_character_is_ERROR_token [of "''a $b''" 2 "[(''ATOM'', ''a'', 1)]" 1] h
  show ?thesis
    by (simp add: newline_def)
qed

section \<open>The pipeline returns\<close>

text \<open>On every text the lexer followed by the parser returns an error list.\<close>

lemma check_syntax_total: "\<exists>errs. check_syntax inp = Some (Inr errs)"
proof -
  have r: "ready (Parser (tokenize inp))"
    by (rule ready_Parser [OF tokenize_ends_in_EOF])
  then have "in_bounds (Parser (tokenize inp))"
    by (simp add: ready_def)
  from run_total [OF parse_program_returns [OF r] parse_program_ok this]
  show ?thesis
    by (auto simp: check_syntax_def ret_def)
qed

section \<open>Valid inputs\<close>

text \<open>
  C5. For each of the five inputs \<^verbatim>\<open>parent(tom, bob).\<close>,
  \<^verbatim>\<open>ancestor(X,Y) :- parent(X,Y).\<close>, \<^verbatim>\<open>?- parent(tom, bob).\<close>, the empty string and
  \<^verbatim>\<open>f(X, g(Y, 1)).\<close>, the lexer followed by \<^verbatim>\<open>parse_program\<close> returns, and the
  error list it yields is empty.
\<close>

theorem valid_inputs_no_errors:
  "check_syntax ''parent(tom, bob).'' = Some (Inr []) \<and>
   check_syntax ''ancestor(X,Y) :- parent(X,Y).'' = Some (Inr []) \<and>
   check_syntax ''?- parent(tom, bob).'' = Some (Inr []) \<and>
   check_syntax [] = Some (Inr []) \<and>
   check_syntax ''f(X, g(Y, 1)).'' = Some (Inr [])"
proof -
  have fact: "check_syntax ''parent(tom, bob).'' = Some (Inr [])"
    by code_simp
  have rule: "check_syntax ''ancestor(X,Y) :- parent(X,Y).'' = Some (Inr [])"
    by code_simp
  have query: "check_syntax ''?- parent(tom, bob).'' = Some (Inr [])"
    by code_simp
  have empty: "check_syntax [] = Some (Inr [])"
    by code_simp
  have nested: "check_syntax ''f(X, g(Y, 1)).'' = Some (Inr [])"
    by code_simp
  from fact rule query empty nested show ?thesis
    by (intro conjI)
qed

end
